theory Spec2Isabelle
  imports Main
begin

section \<open>Data model (src/main.go)\<close>

text \<open>
  The anonymous struct \<^verbatim>\<open>Images\<close> and the struct \<^verbatim>\<open>BookInformation\<close>.
  Go's \<^verbatim>\<open>int\<close> is modelled as \<^typ>\<open>int\<close>: the program only compares these numbers,
  it never does arithmetic on them. Strings are byte lists; a nil slice and an empty slice
  are both the empty list (the program only takes \<^verbatim>\<open>len\<close> of them).
\<close>

record Images =
  Small :: string
  Normal :: string

record BookInformation =
  Title :: string
  Description :: string
  Authors :: "string list"
  Pages :: int
  Images :: Images

datatype Book = Book (BookInformation: BookInformation)

definition maxLimit :: int where
  "maxLimit = 50"

text \<open>
  The outcome of one round of \<^verbatim>\<open>http.Get\<close> followed by \<^verbatim>\<open>json.NewDecoder(resp.Body).Decode\<close>:
  the GET fails with a message, the body fails to decode with a message, or the decoded
  \<^verbatim>\<open>response.Items\<close>. An item is an anonymous struct with the single field
  \<^verbatim>\<open>BookInformation\<close>, and is modelled as that field.
\<close>

datatype 'i reply = GetError string | DecodeError string | Items "'i list"

text \<open>
  The environment of \<^verbatim>\<open>getBooks\<close>: \<^verbatim>\<open>url.QueryEscape\<close> and the network. \<open>Get w u k\<close> is
  the outcome of the request for the URL \<open>u\<close> that is issued when \<open>k\<close> requests have been
  issued before.
\<close>

record 'i world =
  QueryEscape :: "string \<Rightarrow> string"
  Get :: "string \<Rightarrow> nat \<Rightarrow> 'i reply"

section \<open>The validator\<close>

definition hasEmptyInformation :: "BookInformation \<Rightarrow> bool" where
  "hasEmptyInformation bookInformation \<longleftrightarrow>
     Pages bookInformation = 0 \<or>
     Description bookInformation = [] \<or>
     length (Authors bookInformation) = 0 \<or>
     Normal (Images bookInformation) = [] \<or>
     Small (Images bookInformation) = [] \<or>
     Title bookInformation = []"

section \<open>The aggregator\<close>

text \<open>The loop \<^verbatim>\<open>for _, item := range response.Items\<close> of \<^verbatim>\<open>getBooks\<close>.\<close>

fun rangeItems :: "int \<Rightarrow> BookInformation list \<Rightarrow> Book list \<Rightarrow> Book list" where
  "rangeItems limit [] books = books"
| "rangeItems limit (item # items) books =
     (if int (length books) \<ge> limit then books
      else if hasEmptyInformation item then rangeItems limit items books
      else rangeItems limit items (books @ [Book item]))"

definition volumesURL :: "string \<Rightarrow> string" where
  "volumesURL q = ''https://www.googleapis.com/books/v1/volumes?q='' @ q"

type_synonym result = "(Book list \<times> string option) \<times> nat"

partial_function (option) getBooksLoop ::
    "(BookInformation, 'z) world_scheme \<Rightarrow> string \<Rightarrow> int \<Rightarrow> Book list \<Rightarrow> nat \<Rightarrow> result option" where
  "getBooksLoop w q limit books calls =
     (if int (length books) < limit then
        (case Get w (volumesURL q) calls of
           GetError err \<Rightarrow> Some (([], Some (''making GET request: '' @ err)), Suc calls)
         | DecodeError err \<Rightarrow> Some (([], Some err), Suc calls)
         | Items items \<Rightarrow>
             if length items = 0 \<and> length books = 0 then Some (([], None), Suc calls)
             else if length items = 0 then Some ((books, None), Suc calls)
             else getBooksLoop w q limit (rangeItems limit items books) (Suc calls))
      else Some ((books, None), calls))"

definition getBooks ::
    "(BookInformation, 'z) world_scheme \<Rightarrow> string \<Rightarrow> int \<Rightarrow> nat \<Rightarrow> result option" where
  "getBooks w query limit calls =
     (let q = QueryEscape w query;
          limit = (if limit > maxLimit then maxLimit else limit)
      in if limit = 0 then Some (([], None), calls)
         else getBooksLoop w q limit [] calls)"

section \<open>The handler of /books\<close>

text \<open>
  \<^verbatim>\<open>r.URL.Query()\<close> is a \<^verbatim>\<open>url.Values\<close>, a map from a parameter's name to its values;
  \<^verbatim>\<open>Get\<close> gives the first value, or the empty string when there is none.
\<close>

type_synonym Values = "string \<rightharpoonup> string list"

definition Values_Get :: "Values \<Rightarrow> string \<Rightarrow> string" where
  "Values_Get v key = (case v key of None \<Rightarrow> [] | Some [] \<Rightarrow> [] | Some (x # _) \<Rightarrow> x)"

text \<open>The anonymous struct \<^verbatim>\<open>response\<close> of the handler.\<close>

record response =
  Query :: string
  Total :: int
  Books :: "Book list"

text \<open>
  The handler's environment adds \<^verbatim>\<open>strconv.Atoi\<close> and \<^verbatim>\<open>json.Marshal\<close>, each giving
  the error's message (\<open>Inl\<close>) or the value.
\<close>

record env = "BookInformation world" +
  Atoi :: "string \<Rightarrow> string + int"
  Marshal :: "response \<Rightarrow> string + string"

text \<open>What the handler writes to the \<^verbatim>\<open>http.ResponseWriter\<close>.\<close>

record written =
  status :: nat
  body :: string

definition StatusOK :: nat where
  "StatusOK = 200"

definition StatusBadRequest :: nat where
  "StatusBadRequest = 400"

definition StatusInternalServerError :: nat where
  "StatusInternalServerError = 500"

text \<open>\<^verbatim>\<open>http.Error\<close> writes the status and the message followed by a newline.\<close>

definition http_Error :: "string \<Rightarrow> nat \<Rightarrow> written" where
  "http_Error msg code = \<lparr>status = code, body = msg @ [CHR 0x0A]\<rparr>"

text \<open>
  The handler of \<^verbatim>\<open>/books\<close>, from the request's query values and the number of upstream
  requests issued so far to what is written and the new number of upstream requests.
  The result is \<open>None\<close> when \<^verbatim>\<open>getBooks\<close> does not return.
\<close>

definition booksHandler :: "env \<Rightarrow> Values \<Rightarrow> nat \<Rightarrow> (written \<times> nat) option" where
  "booksHandler e v calls =
     (let query = Values_Get v ''query'' in
      if query = [] then Some (http_Error ''query is required'' StatusBadRequest, calls)
      else
        let limit = Values_Get v ''limit'' in
        if limit = [] then Some (http_Error ''limit is required'' StatusBadRequest, calls)
        else
          (case Atoi e limit of
             Inl err \<Rightarrow> Some (http_Error (''processing limit: '' @ err) StatusBadRequest, calls)
           | Inr l \<Rightarrow>
               if l < 0 then
                 Some (http_Error ''limit cant be a negative number'' StatusBadRequest, calls)
               else
                 (case getBooks e query l calls of
                    None \<Rightarrow> None
                  | Some ((books, Some err), calls') \<Rightarrow>
                      Some (http_Error (''getting books: '' @ err) StatusInternalServerError, calls')
                  | Some ((books, None), calls') \<Rightarrow>
                      (case Marshal e \<lparr>Query = query, Total = int (length books), Books = books\<rparr> of
                         Inl err \<Rightarrow> Some (http_Error err StatusInternalServerError, calls')
                       | Inr bytes \<Rightarrow> Some (\<lparr>status = StatusOK, body = bytes\<rparr>, calls')))))"

section \<open>The extended variant (src/unnamed/part_000)\<close>

text \<open>
  There \<^verbatim>\<open>BookInformation\<close> has the further field \<^verbatim>\<open>Categories\<close>, the validator
  checks it too, and \<^verbatim>\<open>getBooks\<close> is the same text.
\<close>

record BookInformation_ext = BookInformation +
  Categories :: "string list"

datatype Book_ext = Book_ext (BookInformation_ext: BookInformation_ext)

definition hasEmptyInformation_ext :: "BookInformation_ext \<Rightarrow> bool" where
  "hasEmptyInformation_ext bookInformation \<longleftrightarrow>
     Pages bookInformation = 0 \<or>
     Description bookInformation = [] \<or>
     length (Authors bookInformation) = 0 \<or>
     Normal (Images bookInformation) = [] \<or>
     Small (Images bookInformation) = [] \<or>
     Title bookInformation = [] \<or>
     length (Categories bookInformation) = 0"

fun rangeItems_ext ::
    "int \<Rightarrow> BookInformation_ext list \<Rightarrow> Book_ext list \<Rightarrow> Book_ext list" where
  "rangeItems_ext limit [] books = books"
| "rangeItems_ext limit (item # items) books =
     (if int (length books) \<ge> limit then books
      else if hasEmptyInformation_ext item then rangeItems_ext limit items books
      else rangeItems_ext limit items (books @ [Book_ext item]))"

type_synonym result_ext = "(Book_ext list \<times> string option) \<times> nat"

partial_function (option) getBooksLoop_ext ::
    "(BookInformation_ext, 'z) world_scheme \<Rightarrow> string \<Rightarrow> int \<Rightarrow> Book_ext list \<Rightarrow> nat
      \<Rightarrow> result_ext option" where
  "getBooksLoop_ext w q limit books calls =
     (if int (length books) < limit then
        (case Get w (volumesURL q) calls of
           GetError err \<Rightarrow> Some (([], Some (''making GET request: '' @ err)), Suc calls)
         | DecodeError err \<Rightarrow> Some (([], Some err), Suc calls)
         | Items items \<Rightarrow>
             if length items = 0 \<and> length books = 0 then Some (([], None), Suc calls)
             else if length items = 0 then Some ((books, None), Suc calls)
             else getBooksLoop_ext w q limit (rangeItems_ext limit items books) (Suc calls))
      else Some ((books, None), calls))"

definition getBooks_ext ::
    "(BookInformation_ext, 'z) world_scheme \<Rightarrow> string \<Rightarrow> int \<Rightarrow> nat \<Rightarrow> result_ext option" where
  "getBooks_ext w query limit calls =
     (let q = QueryEscape w query;
          limit = (if limit > maxLimit then maxLimit else limit)
      in if limit = 0 then Some (([], None), calls)
         else getBooksLoop_ext w q limit [] calls)"

section \<open>Notions used to state the properties\<close>

text \<open>
  The books made from the complete items of a list of items, in the order of the list: what
  the loop over a page would append if there were no limit.
\<close>

definition accepted :: "BookInformation list \<Rightarrow> Book list" where
  "accepted items = map Book (filter (\<lambda>item. \<not> hasEmptyInformation item) items)"

text \<open>
  The items that the \<open>i\<close>-th request delivers (none when it fails), and the items of the \<open>k\<close>
  requests from the \<open>n\<close>-th on, in arrival order.
\<close>

definition page :: "(BookInformation, 'z) world_scheme \<Rightarrow> string \<Rightarrow> nat \<Rightarrow> BookInformation list" where
  "page w u i = (case Get w u i of Items items \<Rightarrow> items | _ \<Rightarrow> [])"

definition arrived :: "(BookInformation, 'z) world_scheme \<Rightarrow> string \<Rightarrow> nat \<Rightarrow> nat \<Rightarrow> BookInformation list" where
  "arrived w u n k = concat (map (page w u) [n..<n + k])"

text \<open>
  A reply stops the aggregator when it is an error or a page of no items; the upstream is
  flowing over \<open>k\<close> requests from the \<open>n\<close>-th on when none of these replies stops it.
\<close>

definition stops :: "BookInformation reply \<Rightarrow> bool" where
  "stops r = (case r of Items items \<Rightarrow> items = [] | _ \<Rightarrow> True)"

definition flowing :: "(BookInformation, 'z) world_scheme \<Rightarrow> string \<Rightarrow> nat \<Rightarrow> nat \<Rightarrow> bool" where
  "flowing w u n k = list_all (\<lambda>i. \<not> stops (Get w u i)) [n..<n + k]"

section \<open>Example inputs\<close>

definition volume :: "string \<Rightarrow> int \<Rightarrow> BookInformation" where
  "volume title pages =
     \<lparr>Title = title, Description = ''A novel'', Authors = [''Frank Herbert''], Pages = pages,
      Images = \<lparr>Small = ''http://img/s'', Normal = ''http://img/n''\<rparr>\<rparr>"

definition volume_ext :: "string \<Rightarrow> int \<Rightarrow> string list \<Rightarrow> BookInformation_ext" where
  "volume_ext title pages categories =
     \<lparr>Title = title, Description = ''A novel'', Authors = [''Frank Herbert''], Pages = pages,
      Images = \<lparr>Small = ''http://img/s'', Normal = ''http://img/n''\<rparr>, Categories = categories\<rparr>"

text \<open>Two pages of candidates, each with one incomplete record (no page count).\<close>

definition pageA :: "BookInformation list" where
  "pageA = [volume ''Dune'' 0, volume ''Dune Messiah'' 256, volume ''Children of Dune'' 444]"


text \<open>
  An upstream that answers the first requests from a script and every later one with a
  fixed reply, whatever the URL.
\<close>

definition scripted :: "'i reply list \<Rightarrow> 'i reply \<Rightarrow> 'i world" where
  "scripted rs r = \<lparr>QueryEscape = (\<lambda>s. s), Get = (\<lambda>u k. if k < length rs then rs ! k else r)\<rparr>"

text \<open>An environment of the handler over a scripted upstream; its \<^verbatim>\<open>Atoi\<close> reads one digit.\<close>

definition digitAtoi :: "string \<Rightarrow> string + int" where
  "digitAtoi s =
     (if s = ''0'' then Inr 0 else if s = ''1'' then Inr 1 else if s = ''2'' then Inr 2
      else if s = ''3'' then Inr 3 else if s = ''-1'' then Inr (- 1)
      else Inl ''invalid syntax'')"

definition showResponse :: "response \<Rightarrow> string + string" where
  "showResponse r = Inr (Query r @ concat (map (\<lambda>b. '','' @ Title (BookInformation b)) (Books r)))"

definition scriptedEnv :: "BookInformation reply list \<Rightarrow> BookInformation reply \<Rightarrow> env" where
  "scriptedEnv rs r =
     \<lparr>QueryEscape = (\<lambda>s. s), Get = (\<lambda>u k. if k < length rs then rs ! k else r),
      Atoi = digitAtoi, Marshal = showResponse\<rparr>"

text \<open>The query values of \<^verbatim>\<open>/books?query=dune&limit=...\<close>.\<close>

definition duneRequest :: "string \<Rightarrow> Values" where
  "duneRequest limit = [''query'' \<mapsto> [''dune''], ''limit'' \<mapsto> [limit]]"

section \<open>The loop over a page\<close>

lemma rangeItems_take:
  "rangeItems limit items books = books @ take (nat limit - length books) (accepted items)"
proof (induction items arbitrary: books)
  case Nil
  show ?case by (simp add: accepted_def)
next
  case (Cons item items)
  show ?case
  proof (cases "int (length books) \<ge> limit")
    case True
    then show ?thesis by simp
  next
    case False
    then have pos: "nat limit - length books = Suc (nat limit - Suc (length books))" by linarith
    show ?thesis
    proof (cases "hasEmptyInformation item")
      case True
      with False Cons.IH [of books] show ?thesis by (simp add: accepted_def)
    next
      case nonempty: False
      with False Cons.IH [of "books @ [Book item]"] pos show ?thesis by (simp add: accepted_def)
    qed
  qed
qed

lemma arrived_0: "arrived w u n 0 = []"
  by (simp add: arrived_def)

lemma arrived_Suc: "arrived w u n (Suc k) = page w u n @ arrived w u (Suc n) k"
  by (simp add: arrived_def upt_rec)

lemma flowing_Suc: "flowing w u n (Suc k) \<longleftrightarrow> \<not> stops (Get w u n) \<and> flowing w u (Suc n) k"
  by (simp add: flowing_def upt_rec)

lemma not_stops: "\<not> stops r \<Longrightarrow> \<exists>items. r = Items items \<and> items \<noteq> []"
  by (cases r) (simp_all add: stops_def)


section \<open>The loop over the requests\<close>

lemma loop_done:
  "\<not> int (length books) < limit \<Longrightarrow> getBooksLoop w q limit books n = Some ((books, None), n)"
  by (subst getBooksLoop.simps) simp

lemma loop_page:
  assumes "int (length books) < limit" and "Get w (volumesURL q) n = Items items" and "items \<noteq> []"
  shows "getBooksLoop w q limit books n =
         getBooksLoop w q limit (books @ take (nat limit - length books) (accepted items)) (Suc n)"
  using assms by (subst getBooksLoop.simps) (simp add: rangeItems_take)

lemma loop_empty:
  assumes "int (length books) < limit" and "Get w (volumesURL q) n = Items []"
  shows "getBooksLoop w q limit books n = Some ((books, None), Suc n)"
  using assms by (subst getBooksLoop.simps) simp

lemma loop_GetError:
  assumes "int (length books) < limit" and "Get w (volumesURL q) n = GetError err"
  shows "getBooksLoop w q limit books n = Some (([], Some (''making GET request: '' @ err)), Suc n)"
  using assms by (subst getBooksLoop.simps) simp

lemma loop_DecodeError:
  assumes "int (length books) < limit" and "Get w (volumesURL q) n = DecodeError err"
  shows "getBooksLoop w q limit books n = Some (([], Some err), Suc n)"
  using assms by (subst getBooksLoop.simps) simp

lemma loop_short:
  assumes "flowing w (volumesURL q) n k"
    and "length books + length (accepted (arrived w (volumesURL q) n k)) < nat limit"
  shows "getBooksLoop w q limit books n =
         getBooksLoop w q limit (books @ accepted (arrived w (volumesURL q) n k)) (n + k)"
  using assms
proof (induction k arbitrary: n books)
  case 0
  show ?case by (simp add: arrived_0 accepted_def)
next
  case (Suc k)
  let ?u = "volumesURL q"
  from Suc.prems(1) obtain items where
    items: "Get w ?u n = Items items" "items \<noteq> []" and rest: "flowing w ?u (Suc n) k"
    using not_stops by (auto simp: flowing_Suc)
  have pg: "page w ?u n = items" using items by (simp add: page_def)
  have acc: "accepted (arrived w ?u n (Suc k)) = accepted items @ accepted (arrived w ?u (Suc n) k)"
    by (simp add: arrived_Suc pg accepted_def)
  from Suc.prems(2) acc have lt: "int (length books) < limit" by linarith
  from Suc.prems(2) acc
  have tk: "take (nat limit - length books) (accepted items) = accepted items" by simp
  have "getBooksLoop w q limit books n = getBooksLoop w q limit (books @ accepted items) (Suc n)"
    using loop_page [OF lt items] tk by simp
  also have "\<dots> = getBooksLoop w q limit
      ((books @ accepted items) @ accepted (arrived w ?u (Suc n) k)) (Suc n + k)"
    using Suc.prems(2) acc by (intro Suc.IH [OF rest]) simp
  finally show ?case by (simp add: acc)
qed

lemma loop_enough:
  assumes "flowing w (volumesURL q) n k"
    and "nat limit \<le> length books + length (accepted (arrived w (volumesURL q) n k))"
  shows "\<exists>n'. n \<le> n' \<and> n' \<le> n + k \<and> getBooksLoop w q limit books n =
         Some ((books @ take (nat limit - length books) (accepted (arrived w (volumesURL q) n k)), None), n')"
  using assms
proof (induction k arbitrary: n books)
  case 0
  then have "\<not> int (length books) < limit" by (simp add: arrived_0 accepted_def)
  then show ?case using loop_done [of books limit w q n] by simp
next
  case (Suc k)
  let ?u = "volumesURL q"
  show ?case
  proof (cases "int (length books) < limit")
    case False
    then show ?thesis using loop_done [of books limit w q n] by simp
  next
    case lt: True
    from Suc.prems(1) obtain items where
      items: "Get w ?u n = Items items" "items \<noteq> []" and rest: "flowing w ?u (Suc n) k"
      using not_stops by (auto simp: flowing_Suc)
    have pg: "page w ?u n = items" using items by (simp add: page_def)
    have acc: "accepted (arrived w ?u n (Suc k)) = accepted items @ accepted (arrived w ?u (Suc n) k)"
      by (simp add: arrived_Suc pg accepted_def)
    let ?books = "books @ take (nat limit - length books) (accepted items)"
    have enough: "nat limit \<le> length ?books + length (accepted (arrived w ?u (Suc n) k))"
      using Suc.prems(2) acc lt by (simp add: min_def)
    from Suc.IH [OF rest enough] obtain n' where
      n': "Suc n \<le> n'" "n' \<le> Suc n + k" and
      r: "getBooksLoop w q limit ?books (Suc n) =
          Some ((?books @ take (nat limit - length ?books) (accepted (arrived w ?u (Suc n) k)), None), n')"
      by blast
    have "?books @ take (nat limit - length ?books) (accepted (arrived w ?u (Suc n) k)) =
          books @ take (nat limit - length books) (accepted (arrived w ?u n (Suc k)))"
      using lt by (simp add: acc min_def)
    with r loop_page [OF lt items] n' show ?thesis
      by (intro exI [of _ n']) simp
  qed
qed


lemma loop_diverges_aux:
  assumes "getBooksLoop w q limit books n = Some y"
  shows "\<not> (\<forall>k. \<not> stops (Get w (volumesURL q) (n + k)) \<and>
            length books + length (accepted (arrived w (volumesURL q) n k)) < nat limit)"
proof (rule getBooksLoop.raw_induct [where
      P = "\<lambda>w q limit books n y. \<not> (\<forall>k. \<not> stops (Get w (volumesURL q) (n + k)) \<and>
            length books + length (accepted (arrived w (volumesURL q) n k)) < nat limit)",
      OF _ assms])
  fix loop :: "(BookInformation, 'a) world_scheme \<Rightarrow> string \<Rightarrow> int \<Rightarrow> Book list \<Rightarrow> nat \<Rightarrow> result option"
  fix w q limit books n y
  let ?u = "volumesURL q"
  assume IH: "\<And>w q limit books n y. loop w q limit books n = Some y \<Longrightarrow>
      \<not> (\<forall>k. \<not> stops (Get w (volumesURL q) (n + k)) \<and>
            length books + length (accepted (arrived w (volumesURL q) n k)) < nat limit)"
  assume body: "(if int (length books) < limit then
        (case Get w (volumesURL q) n of
           GetError err \<Rightarrow> Some (([], Some (''making GET request: '' @ err)), Suc n)
         | DecodeError err \<Rightarrow> Some (([], Some err), Suc n)
         | Items items \<Rightarrow>
             if length items = 0 \<and> length books = 0 then Some (([], None), Suc n)
             else if length items = 0 then Some ((books, None), Suc n)
             else loop w q limit (rangeItems limit items books) (Suc n))
      else Some ((books, None), n)) = Some y"
  show "\<not> (\<forall>k. \<not> stops (Get w ?u (n + k)) \<and>
            length books + length (accepted (arrived w ?u n k)) < nat limit)"
  proof
    assume inv: "\<forall>k. \<not> stops (Get w ?u (n + k)) \<and>
        length books + length (accepted (arrived w ?u n k)) < nat limit"
    from inv [rule_format, of 0] have ns: "\<not> stops (Get w ?u n)"
      and "length books < nat limit" by (simp_all add: arrived_0 accepted_def)
    then have lt: "int (length books) < limit" by linarith
    from not_stops [OF ns] obtain items where items: "Get w ?u n = Items items" "items \<noteq> []"
      by blast
    have pg: "page w ?u n = items" using items by (simp add: page_def)
    have acc: "accepted (arrived w ?u n (Suc k)) = accepted items @ accepted (arrived w ?u (Suc n) k)" for k
      by (simp add: arrived_Suc pg accepted_def)
    let ?books = "books @ take (nat limit - length books) (accepted items)"
    from body lt items have step: "loop w q limit ?books (Suc n) = Some y"
      by (simp add: rangeItems_take)
    have "\<not> stops (Get w ?u (Suc n + k)) \<and>
        length ?books + length (accepted (arrived w ?u (Suc n) k)) < nat limit" for k
    proof -
      from inv [rule_format, of "Suc k"] have a: "\<not> stops (Get w ?u (Suc n + k))"
        and b: "length books + (length (accepted items) +
          length (accepted (arrived w ?u (Suc n) k))) < nat limit"
        by (simp_all add: acc)
      from b have "length (accepted items) \<le> nat limit - length books" by linarith
      with a b show ?thesis by simp
    qed
    with IH [OF step] show False by blast
  qed
qed

lemma loop_diverges:
  assumes "\<forall>k. \<not> stops (Get w (volumesURL q) (n + k)) \<and>
            length books + length (accepted (arrived w (volumesURL q) n k)) < nat limit"
  shows "getBooksLoop w q limit books n = None"
proof (cases "getBooksLoop w q limit books n")
  case None
  then show ?thesis .
next
  case (Some y)
  from loop_diverges_aux [OF Some] assms show ?thesis by blast
qed

lemma loop_stops:
  assumes "stops (Get w (volumesURL q) n)"
  shows "\<exists>r. getBooksLoop w q limit books n = Some r"
proof (cases "int (length books) < limit")
  case False
  then show ?thesis by (simp add: loop_done)
next
  case True
  then show ?thesis using assms
    by (cases "Get w (volumesURL q) n")
       (simp_all add: loop_GetError loop_DecodeError loop_empty stops_def)
qed

lemma loop_returns:
  assumes "stops (Get w (volumesURL q) (n + k)) \<or>
           nat limit \<le> length books + length (accepted (arrived w (volumesURL q) n k))"
  shows "\<exists>r. getBooksLoop w q limit books n = Some r"
proof -
  let ?u = "volumesURL q"
  let ?E = "\<lambda>k. stops (Get w ?u (n + k)) \<or>
           nat limit \<le> length books + length (accepted (arrived w ?u n k))"
  define m where "m = (LEAST k. ?E k)"
  have Em: "?E m" unfolding m_def using assms by (rule LeastI)
  have below: "\<not> ?E j" if "j < m" for j
    using that not_less_Least unfolding m_def by blast
  have fl: "flowing w ?u n m"
  proof -
    have "\<not> stops (Get w ?u i)" if "n \<le> i" "i < n + m" for i
      using below [of "i - n"] that by simp
    then show ?thesis by (simp add: flowing_def list_all_iff)
  qed
  show ?thesis
  proof (cases "nat limit \<le> length books + length (accepted (arrived w ?u n m))")
    case True
    from loop_enough [OF fl True] show ?thesis by blast
  next
    case False
    with Em have st: "stops (Get w ?u (n + m))" by blast
    from False have "length books + length (accepted (arrived w ?u n m)) < nat limit" by simp
    from loop_short [OF fl this] loop_stops [OF st] show ?thesis by simp
  qed
qed

section \<open>What the aggregator returns\<close>

lemma loop_outcome:
  assumes "getBooksLoop w q limit books n = Some r"
  obtains
    (full) k where "flowing w (volumesURL q) n k"
      and "nat limit \<le> length books + length (accepted (arrived w (volumesURL q) n k))"
      and "fst r = (books @ take (nat limit - length books) (accepted (arrived w (volumesURL q) n k)), None)"
      and "snd r \<le> n + k"
  | (exhausted) k where "flowing w (volumesURL q) n k"
      and "length books + length (accepted (arrived w (volumesURL q) n k)) < nat limit"
      and "Get w (volumesURL q) (n + k) = Items []"
      and "r = ((books @ accepted (arrived w (volumesURL q) n k), None), Suc (n + k))"
  | (get_failed) k err where "flowing w (volumesURL q) n k"
      and "length books + length (accepted (arrived w (volumesURL q) n k)) < nat limit"
      and "Get w (volumesURL q) (n + k) = GetError err"
      and "r = (([], Some (''making GET request: '' @ err)), Suc (n + k))"
  | (decode_failed) k err where "flowing w (volumesURL q) n k"
      and "length books + length (accepted (arrived w (volumesURL q) n k)) < nat limit"
      and "Get w (volumesURL q) (n + k) = DecodeError err"
      and "r = (([], Some err), Suc (n + k))"
proof -
  let ?u = "volumesURL q"
  let ?E = "\<lambda>k. stops (Get w ?u (n + k)) \<or>
           nat limit \<le> length books + length (accepted (arrived w ?u n k))"
  from loop_diverges_aux [OF assms] obtain k0 where "?E k0" by (auto simp: not_less)
  define m where "m = (LEAST k. ?E k)"
  have Em: "?E m" unfolding m_def using \<open>?E k0\<close> by (rule LeastI)
  have below: "\<not> ?E j" if "j < m" for j
    using that not_less_Least unfolding m_def by blast
  have fl: "flowing w ?u n m"
  proof -
    have "\<not> stops (Get w ?u i)" if "n \<le> i" "i < n + m" for i
      using below [of "i - n"] that by simp
    then show ?thesis by (simp add: flowing_def list_all_iff)
  qed
  show thesis
  proof (cases "nat limit \<le> length books + length (accepted (arrived w ?u n m))")
    case True
    from loop_enough [OF fl True] assms show ?thesis by (auto intro: full [OF fl True])
  next
    case False
    with Em have st: "stops (Get w ?u (n + m))" by blast
    from False have short: "length books + length (accepted (arrived w ?u n m)) < nat limit" by simp
    let ?books = "books @ accepted (arrived w ?u n m)"
    have lt: "int (length ?books) < limit" using short by simp
    from loop_short [OF fl short] assms
    have r: "getBooksLoop w q limit ?books (n + m) = Some r" by simp
    show ?thesis
    proof (cases "Get w ?u (n + m)")
      case (GetError err)
      with r loop_GetError [OF lt GetError] show ?thesis
        by (intro get_failed [OF fl short GetError]) simp
    next
      case (DecodeError err)
      with r loop_DecodeError [OF lt DecodeError] show ?thesis
        by (intro decode_failed [OF fl short DecodeError]) simp
    next
      case (Items items)
      with st have e: "Get w ?u (n + m) = Items []" by (simp add: stops_def)
      with r loop_empty [OF lt e] show ?thesis
        by (intro exhausted [OF fl short e]) simp
    qed
  qed
qed

lemma accepted_complete: "b \<in> set (accepted items) \<Longrightarrow> \<not> hasEmptyInformation (BookInformation b)"
  by (auto simp: accepted_def)

lemma loop_from_empty:
  assumes "getBooksLoop w q limit [] n = Some ((books, err), n')"
  shows "length books \<le> nat limit \<and> (\<forall>b \<in> set books. \<not> hasEmptyInformation (BookInformation b))"
  using assms
proof (cases rule: loop_outcome)
  case (full k)
  then show ?thesis by (auto dest: in_set_takeD accepted_complete)
next
  case (exhausted k)
  then show ?thesis by (auto dest: accepted_complete)
qed simp_all

lemma getBooks_eq:
  "getBooks w query limit n =
     (if min limit maxLimit = 0 then Some (([], None), n)
      else getBooksLoop w (QueryEscape w query) (min limit maxLimit) [] n)"
  by (simp add: getBooks_def min_def Let_def not_less)

lemma repeated_page:
  "arrived (scripted [] (Items items)) u n k = concat (replicate k items)"
  by (induction k arbitrary: n) (simp_all add: arrived_0 arrived_Suc page_def scripted_def)

section \<open>The properties\<close>



text \<open>
  \<^bold>\<open>C2 (as amended).\<close> \<^verbatim>\<open>hasEmptyInformation\<close> is false of a record exactly when its
  title, description, author list, small thumbnail and normal thumbnail are non-empty and its page count is
  \<^emph>\<open>not zero\<close>; in the extended variant the category list must be non-empty too. The
  validator tests the page count against zero only, so a negative page count passes.
\<close>

theorem hasEmptyInformation_iff:
  "(\<not> hasEmptyInformation r \<longleftrightarrow>
      Title r \<noteq> [] \<and> Description r \<noteq> [] \<and> Authors r \<noteq> [] \<and> Pages r \<noteq> 0 \<and>
      Small (Images r) \<noteq> [] \<and> Normal (Images r) \<noteq> []) \<and>
   (\<not> hasEmptyInformation_ext x \<longleftrightarrow>
      Title x \<noteq> [] \<and> Description x \<noteq> [] \<and> Authors x \<noteq> [] \<and> Pages x \<noteq> 0 \<and>
      Small (Images x) \<noteq> [] \<and> Normal (Images x) \<noteq> [] \<and> Categories x \<noteq> [])"
  unfolding hasEmptyInformation_def hasEmptyInformation_ext_def by auto

text \<open>
  \<^bold>\<open>C2 as stated fails.\<close> With "page count strictly greater than 0" the equivalence is
  false of a record whose other fields are filled and whose page count is \<open>-1\<close>: the
  validator accepts it.
\<close>

theorem negative_pages_counterexample:
  "\<not> (\<not> hasEmptyInformation (volume ''Dune'' (- 1)) \<longleftrightarrow>
      Title (volume ''Dune'' (- 1)) \<noteq> [] \<and> Description (volume ''Dune'' (- 1)) \<noteq> [] \<and>
      Authors (volume ''Dune'' (- 1)) \<noteq> [] \<and> 0 < Pages (volume ''Dune'' (- 1)) \<and>
      Small (Images (volume ''Dune'' (- 1))) \<noteq> [] \<and> Normal (Images (volume ''Dune'' (- 1))) \<noteq> [])"
  by (simp add: hasEmptyInformation_def volume_def)

text \<open>
  \<^bold>\<open>C3 (as amended).\<close> \<^verbatim>\<open>getBooks\<close> returns if and only if some request is answered by
  an error or an empty page, or the pages delivered by finitely many requests hold at least
  \<open>min limit 50\<close> complete records (which is so at once when the limit is not positive).
  There is no bound on the number of requests in the code.
\<close>

theorem getBooks_returns_iff:
  "(\<exists>r. getBooks w query limit n = Some r) \<longleftrightarrow>
   (\<exists>k. stops (Get w (volumesURL (QueryEscape w query)) (n + k)) \<or>
        nat (min limit maxLimit) \<le> length (filter (\<lambda>item. \<not> hasEmptyInformation item)
           (arrived w (volumesURL (QueryEscape w query)) n k)))"
proof (cases "min limit maxLimit = 0")
  case True
  then have "nat (min limit maxLimit) \<le> length (filter (\<lambda>item. \<not> hasEmptyInformation item)
           (arrived w (volumesURL (QueryEscape w query)) n 0))" by simp
  with True show ?thesis unfolding getBooks_eq by auto
next
  case False
  let ?q = "QueryEscape w query" and ?L = "min limit maxLimit"
  have "(\<exists>r. getBooksLoop w ?q ?L [] n = Some r) \<longleftrightarrow>
    (\<exists>k. stops (Get w (volumesURL ?q) (n + k)) \<or>
        nat ?L \<le> length ([] :: Book list) + length (accepted (arrived w (volumesURL ?q) n k)))"
    using loop_returns [of w ?q n _ ?L "[]"] loop_diverges_aux [of w ?q ?L "[]" n]
    by (auto simp: not_less)
  with False show ?thesis by (simp add: getBooks_eq accepted_def)
qed

theorem getBooks_returns_iff_witness:
  "stops (Get (scripted [Items pageA] (Items [])) (volumesURL ''dune'') (0 + 1)) \<and>
   getBooks (scripted [Items pageA] (Items [])) ''dune'' 3 0 \<noteq> None"
proof -
  let ?w = "scripted [Items pageA] (Items []) :: BookInformation world"
  have q: "QueryEscape ?w ''dune'' = ''dune''" by (simp add: scripted_def)
  have s: "stops (Get ?w (volumesURL ''dune'') (0 + 1))" by (simp add: scripted_def stops_def)
  then have "\<exists>k. stops (Get ?w (volumesURL (QueryEscape ?w ''dune'')) (0 + k)) \<or>
        nat (min 3 maxLimit) \<le> length (filter (\<lambda>item. \<not> hasEmptyInformation item)
           (arrived ?w (volumesURL (QueryEscape ?w ''dune'')) 0 k))"
    unfolding q by blast
  with getBooks_returns_iff [of ?w "''dune''" 3 0] s show ?thesis by blast
qed

text \<open>
  \<^bold>\<open>C3 as stated fails.\<close> Against an upstream that answers every request with the same
  page of one incomplete record, \<^verbatim>\<open>getBooks\<close> with limit 1 never returns.
\<close>

theorem repeated_incomplete_page_counterexample:
  "getBooks (scripted [] (Items [volume ''Dune'' 0])) ''dune'' 1 0 = None"
proof -
  let ?w = "scripted [] (Items [volume ''Dune'' 0]) :: BookInformation world"
  have "accepted (concat (replicate k [volume ''Dune'' 0])) = []" for k
    by (induction k) (simp_all add: accepted_def hasEmptyInformation_def volume_def)
  then have "\<forall>k. \<not> stops (Get ?w (volumesURL ''dune'') (0 + k)) \<and>
     length ([] :: Book list) + length (accepted (arrived ?w (volumesURL ''dune'') 0 k)) < nat 1"
    by (simp add: repeated_page) (simp add: scripted_def stops_def)
  from loop_diverges [OF this] show ?thesis
    by (simp add: getBooks_eq maxLimit_def) (simp add: scripted_def)
qed

text \<open>
  \<^bold>\<open>C4.\<close> The constant \<^verbatim>\<open>maxLimit\<close> is 50 and \<^verbatim>\<open>getBooks\<close> works with \<open>min limit 50\<close>:
  it returns at once when that is 0 and runs its loop with that limit otherwise; a limit above
  50 gives what the limit 50 gives; and whatever it returns holds at most 50 books (at most
  \<open>min limit 50\<close>, indeed).
\<close>

theorem getBooks_effective_limit:
  "maxLimit = 50 \<and>
   getBooks w query limit n =
     (if min limit 50 = 0 then Some (([], None), n)
      else getBooksLoop w (QueryEscape w query) (min limit 50) [] n) \<and>
   (50 < limit \<longrightarrow> getBooks w query limit n = getBooks w query 50 n) \<and>
   (\<forall>books err n'. getBooks w query limit n = Some ((books, err), n') \<longrightarrow>
      length books \<le> 50 \<and> length books \<le> nat (min limit 50))"
proof -
  have "length books \<le> nat (min limit 50)"
    if "getBooks w query limit n = Some ((books, err), n')" for books err n'
  proof (cases "min limit maxLimit = 0")
    case True
    with that show ?thesis by (simp add: getBooks_eq)
  next
    case False
    with that loop_from_empty [of w "QueryEscape w query" "min limit maxLimit" n books err n']
    show ?thesis by (simp add: getBooks_eq maxLimit_def)
  qed
  moreover have "nat (min limit 50) \<le> 50" by simp
  ultimately show ?thesis
    by (auto simp: getBooks_eq maxLimit_def intro: order_trans)
qed

theorem getBooks_effective_limit_witness:
  "(50 :: int) < 60 \<and>
   getBooks (scripted [] (Items (replicate 60 (volume ''Dune'' 412)))) ''dune'' 60 0 =
     getBooks (scripted [] (Items (replicate 60 (volume ''Dune'' 412)))) ''dune'' 50 0 \<and>
   getBooks (scripted [] (Items (replicate 60 (volume ''Dune'' 412)))) ''dune'' 60 0 =
     Some ((replicate 50 (Book (volume ''Dune'' 412)), None), 1) \<and>
   length (replicate 50 (Book (volume ''Dune'' 412))) \<le> 50"
proof -
  let ?w = "scripted [] (Items (replicate 60 (volume ''Dune'' 412))) :: BookInformation world"
  note th = getBooks_effective_limit [of ?w "''dune''" 60 0]
  from th have "(50 :: int) < 60 \<longrightarrow> getBooks ?w ''dune'' 60 0 = getBooks ?w ''dune'' 50 0"
    by blast
  then have same: "getBooks ?w ''dune'' 60 0 = getBooks ?w ''dune'' 50 0" by simp
  from th have unfolded: "getBooks ?w ''dune'' 60 0 =
      getBooksLoop ?w (QueryEscape ?w ''dune'') 50 [] 0" by simp
  have "\<not> hasEmptyInformation (volume ''Dune'' 412)"
    by (simp add: hasEmptyInformation_def volume_def)
  then have acc: "accepted (replicate 60 (volume ''Dune'' 412)) = replicate 60 (Book (volume ''Dune'' 412))"
    by (simp add: accepted_def)
  have g: "Get ?w (volumesURL ''dune'') 0 = Items (replicate 60 (volume ''Dune'' 412))"
    by (simp add: scripted_def)
  have ne: "replicate 60 (volume ''Dune'' 412) \<noteq> []" by simp
  have "getBooksLoop ?w ''dune'' 50 [] 0 =
      getBooksLoop ?w ''dune'' 50 (replicate 50 (Book (volume ''Dune'' 412))) (Suc 0)"
    using loop_page [of "[]" 50 ?w "''dune''" 0, OF _ g ne] by (simp add: acc)
  also have "\<dots> = Some ((replicate 50 (Book (volume ''Dune'' 412)), None), Suc 0)"
    by (rule loop_done) simp
  finally have run: "getBooks ?w ''dune'' 60 0 =
      Some ((replicate 50 (Book (volume ''Dune'' 412)), None), 1)"
    using unfolded by (simp add: scripted_def)
  from th run have "length (replicate 50 (Book (volume ''Dune'' 412))) \<le> 50" by blast
  with same run show ?thesis by simp
qed

text \<open>
  \<^bold>\<open>C5.\<close> When the first \<open>k\<close> replies are pages of candidates holding fewer complete records
  than the effective limit, so that a further request is made, and that request is answered
  by a page of no items, \<^verbatim>\<open>getBooks\<close> returns without an error exactly the records accumulated
  so far (the empty list when none was accumulated, in particular when \<open>k = 0\<close>), and has made
  no request after that one.
\<close>

theorem getBooks_empty_page:
  assumes "flowing w (volumesURL (QueryEscape w query)) n k"
    and "length (filter (\<lambda>item. \<not> hasEmptyInformation item)
           (arrived w (volumesURL (QueryEscape w query)) n k)) < nat (min limit maxLimit)"
    and "Get w (volumesURL (QueryEscape w query)) (n + k) = Items []"
  shows "getBooks w query limit n =
           Some ((map Book (filter (\<lambda>item. \<not> hasEmptyInformation item)
             (arrived w (volumesURL (QueryEscape w query)) n k)), None), Suc (n + k))"
proof -
  let ?q = "QueryEscape w query" and ?L = "min limit maxLimit"
  let ?acc = "accepted (arrived w (volumesURL ?q) n k)"
  from assms(2) have short: "length ([] :: Book list) + length ?acc < nat ?L"
    and nz: "?L \<noteq> 0" and lt: "int (length ([] @ ?acc)) < ?L"
    by (auto simp: accepted_def)
  from loop_short [OF assms(1) short] loop_empty [OF lt assms(3)] nz
  show ?thesis by (simp add: getBooks_eq accepted_def)
qed

theorem getBooks_empty_page_witness:
  "flowing (scripted [Items pageA] (Items [])) (volumesURL ''dune'') 0 1 \<and>
   Get (scripted [Items pageA] (Items [])) (volumesURL ''dune'') (0 + 1) = Items [] \<and>
   getBooks (scripted [Items pageA] (Items [])) ''dune'' 3 0 =
     Some (([Book (volume ''Dune Messiah'' 256), Book (volume ''Children of Dune'' 444)], None), 2)"
proof -
  let ?w = "scripted [Items pageA] (Items []) :: BookInformation world"
  have q: "QueryEscape ?w ''dune'' = ''dune''" by (simp add: scripted_def)
  have f: "flowing ?w (volumesURL (QueryEscape ?w ''dune'')) 0 1" unfolding q by code_simp
  have a: "filter (\<lambda>item. \<not> hasEmptyInformation item)
      (arrived ?w (volumesURL (QueryEscape ?w ''dune'')) 0 1) =
    [volume ''Dune Messiah'' 256, volume ''Children of Dune'' 444]"
    unfolding q by code_simp
  have l: "length (filter (\<lambda>item. \<not> hasEmptyInformation item)
      (arrived ?w (volumesURL (QueryEscape ?w ''dune'')) 0 1)) < nat (min 3 maxLimit)"
    unfolding a by (simp add: maxLimit_def)
  have e: "Get ?w (volumesURL (QueryEscape ?w ''dune'')) (0 + 1) = Items []"
    by (simp add: scripted_def)
  from getBooks_empty_page [OF f l e] f e show ?thesis unfolding a by (simp add: q)
qed

text \<open>
  \<^bold>\<open>C6.\<close> When the first \<open>k\<close> replies are pages of candidates holding fewer complete records
  than the effective limit, so that a further request is made, and that request fails or its
  body fails to decode, \<^verbatim>\<open>getBooks\<close> returns the error with an empty book list, whatever was
  accumulated, and has made no request after the failed one.
\<close>

theorem getBooks_error_aborts:
  assumes "flowing w (volumesURL (QueryEscape w query)) n k"
    and "length (filter (\<lambda>item. \<not> hasEmptyInformation item)
           (arrived w (volumesURL (QueryEscape w query)) n k)) < nat (min limit maxLimit)"
    and "Get w (volumesURL (QueryEscape w query)) (n + k) = GetError err \<or>
         Get w (volumesURL (QueryEscape w query)) (n + k) = DecodeError err"
  shows "getBooks w query limit n =
           Some (([], Some (if Get w (volumesURL (QueryEscape w query)) (n + k) = GetError err
                            then ''making GET request: '' @ err else err)), Suc (n + k))"
proof -
  let ?q = "QueryEscape w query" and ?L = "min limit maxLimit"
  let ?acc = "accepted (arrived w (volumesURL ?q) n k)"
  from assms(2) have short: "length ([] :: Book list) + length ?acc < nat ?L"
    and nz: "?L \<noteq> 0" and lt: "int (length ([] @ ?acc)) < ?L"
    by (auto simp: accepted_def)
  from assms(3) show ?thesis
  proof
    assume g: "Get w (volumesURL ?q) (n + k) = GetError err"
    from loop_short [OF assms(1) short] loop_GetError [OF lt g] nz g
    show ?thesis by (simp add: getBooks_eq)
  next
    assume d: "Get w (volumesURL ?q) (n + k) = DecodeError err"
    from loop_short [OF assms(1) short] loop_DecodeError [OF lt d] nz d
    show ?thesis by (simp add: getBooks_eq)
  qed
qed

theorem getBooks_error_aborts_witness:
  "flowing (scripted [Items pageA] (GetError ''timeout'')) (volumesURL ''dune'') 0 1 \<and>
   Get (scripted [Items pageA] (GetError ''timeout'')) (volumesURL ''dune'') (0 + 1) =
     GetError ''timeout'' \<and>
   getBooks (scripted [Items pageA] (GetError ''timeout'')) ''dune'' 3 0 =
     Some (([], Some ''making GET request: timeout''), 2)"
proof -
  let ?w = "scripted [Items pageA] (GetError ''timeout'') :: BookInformation world"
  have q: "QueryEscape ?w ''dune'' = ''dune''" by (simp add: scripted_def)
  have f: "flowing ?w (volumesURL (QueryEscape ?w ''dune'')) 0 1" unfolding q by code_simp
  have a: "filter (\<lambda>item. \<not> hasEmptyInformation item)
      (arrived ?w (volumesURL (QueryEscape ?w ''dune'')) 0 1) =
    [volume ''Dune Messiah'' 256, volume ''Children of Dune'' 444]"
    unfolding q by code_simp
  have l: "length (filter (\<lambda>item. \<not> hasEmptyInformation item)
      (arrived ?w (volumesURL (QueryEscape ?w ''dune'')) 0 1)) < nat (min 3 maxLimit)"
    unfolding a by (simp add: maxLimit_def)
  have e: "Get ?w (volumesURL (QueryEscape ?w ''dune'')) (0 + 1) = GetError ''timeout''"
    by (simp add: scripted_def)
  from getBooks_error_aborts [OF f l disjI1, OF e] f e show ?thesis by (simp add: q)
qed

text \<open>
  \<^bold>\<open>C7.\<close> With limit 0, \<^verbatim>\<open>getBooks\<close> returns the empty list and no error, and the number
  of upstream requests is unchanged.
\<close>

theorem getBooks_limit_zero:
  "getBooks w query 0 n = Some (([], None), n)"
  by (simp add: getBooks_def maxLimit_def)



text \<open>
  \<^bold>\<open>C9.\<close> When the \<^verbatim>\<open>query\<close> parameter is missing or empty, the \<^verbatim>\<open>limit\<close> parameter is
  missing or empty, \<^verbatim>\<open>strconv.Atoi\<close> fails on the limit, or the parsed limit is negative, the
  handler answers with status 400, the number of upstream requests is unchanged, and the
  answer is the same whatever the upstream and \<^verbatim>\<open>url.QueryEscape\<close> are: \<^verbatim>\<open>getBooks\<close> is not
  reached.
\<close>

theorem booksHandler_rejects:
  assumes "Values_Get v ''query'' = [] \<or> Values_Get v ''limit'' = [] \<or>
           (\<exists>err. Atoi e (Values_Get v ''limit'') = Inl err) \<or>
           (\<exists>l. Atoi e (Values_Get v ''limit'') = Inr l \<and> l < 0)"
  shows "\<exists>wr. status wr = 400 \<and> booksHandler e v n = Some (wr, n) \<and>
           booksHandler (e\<lparr>Get := g, QueryEscape := esc\<rparr>) v n = Some (wr, n)"
  using assms
  by (auto simp: booksHandler_def Let_def http_Error_def StatusBadRequest_def)

theorem booksHandler_rejects_witness:
  "Atoi (scriptedEnv [] (Items pageA)) (Values_Get (duneRequest ''-1'') ''limit'') = Inr (- 1) \<and>
   (- 1 :: int) < 0 \<and>
   (\<exists>wr. status wr = 400 \<and>
      booksHandler (scriptedEnv [] (Items pageA)) (duneRequest ''-1'') 0 = Some (wr, 0) \<and>
      booksHandler ((scriptedEnv [] (Items pageA))\<lparr>Get := (\<lambda>u k. GetError ''down''),
        QueryEscape := (\<lambda>s. [])\<rparr>) (duneRequest ''-1'') 0 = Some (wr, 0))"
proof -
  let ?e = "scriptedEnv [] (Items pageA)"
  have a: "Atoi ?e (Values_Get (duneRequest ''-1'') ''limit'') = Inr (- 1)"
    by (simp add: scriptedEnv_def duneRequest_def Values_Get_def digitAtoi_def)
  then have "\<exists>l. Atoi ?e (Values_Get (duneRequest ''-1'') ''limit'') = Inr l \<and> l < 0"
    by simp
  then have "Values_Get (duneRequest ''-1'') ''query'' = [] \<or>
      Values_Get (duneRequest ''-1'') ''limit'' = [] \<or>
      (\<exists>err. Atoi ?e (Values_Get (duneRequest ''-1'') ''limit'') = Inl err) \<or>
      (\<exists>l. Atoi ?e (Values_Get (duneRequest ''-1'') ''limit'') = Inr l \<and> l < 0)"
    by blast
  from booksHandler_rejects [OF this, where n = 0 and g = "\<lambda>u k. GetError ''down''"
      and esc = "\<lambda>s. []"] a
  show ?thesis by simp
qed

text \<open>
  \<^bold>\<open>C10.\<close> With a strictly negative limit, \<^verbatim>\<open>getBooks\<close> of both variants returns no book and
  no error, and the number of upstream requests is unchanged: the limit is not 0, so the early
  return is passed, and the loop's condition fails at once.
\<close>

theorem getBooks_negative_limit:
  assumes "limit < 0"
  shows "getBooks w query limit n = Some (([], None), n) \<and>
         getBooks_ext w' query limit n = Some (([], None), n)"
proof -
  have "getBooksLoop_ext w' q limit [] n = Some (([], None), n)" for q
    using assms by (subst getBooksLoop_ext.simps) simp
  with assms show ?thesis
    by (simp add: getBooks_def getBooks_ext_def maxLimit_def loop_done)
qed

theorem getBooks_negative_limit_witness:
  "(- 1 :: int) < 0 \<and>
   getBooks (scripted [] (Items [volume ''Dune'' 412])) ''dune'' (- 1) 0 = Some (([], None), 0) \<and>
   getBooks_ext (scripted [] (Items [volume_ext ''Dune'' 412 [''Fiction'']])) ''dune'' (- 1) 0 =
     Some (([], None), 0)"
  using getBooks_negative_limit [of "- 1" "scripted [] (Items [volume ''Dune'' 412])" "''dune''" 0
      "scripted [] (Items [volume_ext ''Dune'' 412 [''Fiction'']])"]
  by simp


end
